theory Spec2Isabelle
  imports Main
begin

section \<open>Text, bytes and the page registry\<close>

text \<open>
  A Python \<open>str\<close> is a sequence of Unicode code points; it is modelled as a list of
  natural numbers (the values of \<open>ord\<close>). A file on disk is a sequence of bytes, a list
  of natural numbers below 256. \<open>u\<close> turns an ASCII literal of the script into such a list.
\<close>

type_synonym ustr = "nat list"
type_synonym bytes = "nat list"

definition u :: "string \<Rightarrow> ustr" where
  "u s = map of_char s"

text \<open>\<open>pages_map.items()\<close>: the dict literal of the script, in insertion order.\<close>

definition pages_map :: "(ustr \<times> ustr) list" where
  "pages_map =
    [(u ''home'', u ''README.md''),
     (u ''installation'', u ''installation.md''),
     (u ''getting-started'', u ''getting-started.md''),
     (u ''configuration'', u ''configuration.md''),
     (u ''factories'', u ''factories.md''),
     (u ''expectations'', u ''expectations.md''),
     (u ''authentication'', u ''authentication.md''),
     (u ''database-isolation'', u ''database-isolation.md''),
     (u ''browser-testing'', u ''browser-testing.md''),
     (u ''rest-api-testing'', u ''rest-api-testing.md''),
     (u ''ajax-testing'', u ''ajax-testing.md''),
     (u ''architecture-testing'', u ''architecture-testing.md''),
     (u ''mocking'', u ''mocking.md''),
     (u ''fixtures'', u ''fixtures.md''),
     (u ''snapshots'', u ''snapshots.md''),
     (u ''visual-regression'', u ''visual-regression.md''),
     (u ''accessibility-testing'', u ''accessibility-testing.md''),
     (u ''woocommerce'', u ''woocommerce.md''),
     (u ''gutenberg'', u ''gutenberg.md''),
     (u ''ci-cd'', u ''ci-cd.md''),
     (u ''migration'', u ''migration.md'')]"

definition base_path :: ustr where
  "base_path = u ''docs/guide/''"

text \<open>
  \<open>os.path.join(a, b)\<close> (posixpath, two arguments): an absolute \<open>b\<close> replaces \<open>a\<close>;
  otherwise \<open>b\<close> is appended, with a separator unless \<open>a\<close> is empty or ends with one.
\<close>

definition os_path_join :: "ustr \<Rightarrow> ustr \<Rightarrow> ustr" where
  "os_path_join a b =
     (case b of
        c # _ \<Rightarrow>
          if c = 47 then b
          else if a = [] \<or> last a = 47 then a @ b
          else a @ [47] @ b
      | [] \<Rightarrow> if a = [] \<or> last a = 47 then a @ b else a @ [47] @ b)"

section \<open>Reading a file as UTF-8 text\<close>

text \<open>
  The strict UTF-8 decoder behind \<open>open(..., encoding='utf-8')\<close>: shortest forms only,
  no surrogates, nothing above U+10FFFF. \<open>None\<close> is the \<open>UnicodeDecodeError\<close>.
\<close>

definition cont :: "nat \<Rightarrow> bool" where
  "cont b = (128 \<le> b \<and> b < 192)"

fun utf8_decode :: "bytes \<Rightarrow> ustr option" where
  "utf8_decode [] = Some []"
| "utf8_decode (b # bs) =
     (if b < 128 then map_option ((#) b) (utf8_decode bs)
      else if 194 \<le> b \<and> b < 224 then
        (case bs of
           c1 # r \<Rightarrow>
             if cont c1
             then map_option ((#) ((b - 192) * 64 + (c1 - 128))) (utf8_decode r)
             else None
         | _ \<Rightarrow> None)
      else if 224 \<le> b \<and> b < 240 then
        (case bs of
           c1 # c2 # r \<Rightarrow>
             (let cp = (b - 224) * 4096 + (c1 - 128) * 64 + (c2 - 128)
              in if cont c1 \<and> cont c2 \<and> 2048 \<le> cp \<and> \<not> (55296 \<le> cp \<and> cp < 57344)
                 then map_option ((#) cp) (utf8_decode r)
                 else None)
         | _ \<Rightarrow> None)
      else if 240 \<le> b \<and> b < 245 then
        (case bs of
           c1 # c2 # c3 # r \<Rightarrow>
             (let cp = (b - 240) * 262144 + (c1 - 128) * 4096 + (c2 - 128) * 64 + (c3 - 128)
              in if cont c1 \<and> cont c2 \<and> cont c3 \<and> 65536 \<le> cp \<and> cp < 1114112
                 then map_option ((#) cp) (utf8_decode r)
                 else None)
         | _ \<Rightarrow> None)
      else None)"

text \<open>
  The file is opened in text mode with the default \<open>newline=None\<close>: on reading, every
  \<open>\r\n\<close> and every remaining \<open>\r\<close> is handed to the caller as \<open>\n\<close>.
\<close>

fun universal_newlines :: "ustr \<Rightarrow> ustr" where
  "universal_newlines [] = []"
| "universal_newlines [c] = (if c = 13 then [10] else [c])"
| "universal_newlines (c # d # cs) =
     (if c = 13 \<and> d = 10 then 10 # universal_newlines cs
      else if c = 13 then 10 # universal_newlines (d # cs)
      else c # universal_newlines (d # cs))"

text \<open>
  Exceptions are values. The classes are those that opening, reading and decoding a file
  raise by themselves; each of them derives from \<open>Exception\<close>, so the clause
  \<open>except Exception as e\<close> of the script receives every value of this type.
  The second component is \<open>str(e)\<close>, the text the f-string interpolates.
\<close>

datatype exn_class =
    FileNotFoundError | PermissionError | IsADirectoryError | OSError
  | UnicodeDecodeError | ValueError | MemoryError

datatype py_exception = Raised exn_class ustr

fun str :: "py_exception \<Rightarrow> ustr" where
  "str (Raised c msg) = msg"

text \<open>
  The environment of a run: what the filesystem answers for a path (the bytes of the file, or
  the exception that \<open>open\<close> or \<open>read\<close> raises), and the text with which the
  runtime describes a decoding failure of given bytes.
\<close>

datatype file_node = Fails py_exception | Content bytes

record env =
  files :: "ustr \<Rightarrow> file_node"
  decode_failure_text :: "bytes \<Rightarrow> ustr"

text \<open>The body of the \<open>try\<close>: \<open>open(filepath, 'r', encoding='utf-8')\<close> and \<open>f.read()\<close>.\<close>

definition read_text :: "env \<Rightarrow> ustr \<Rightarrow> py_exception + ustr" where
  "read_text w filepath =
     (case files w filepath of
        Fails e \<Rightarrow> Inl e
      | Content bs \<Rightarrow>
          (case utf8_decode bs of
             None \<Rightarrow> Inl (Raised UnicodeDecodeError (decode_failure_text w bs))
           | Some cps \<Rightarrow> Inr (universal_newlines cps)))"

section \<open>The bundling loop\<close>

text \<open>
  The process: the dict \<open>embedded_pages\<close> (an association list in insertion order, as a
  Python dict iterates) and the two output streams. \<open>d[k] = v\<close> replaces the value of a
  key in place and appends a new key at the end.
\<close>

record proc =
  embedded_pages :: "(ustr \<times> ustr) list"
  stdout :: ustr
  stderr :: ustr

fun dict_set :: "('k \<times> 'v) list \<Rightarrow> 'k \<Rightarrow> 'v \<Rightarrow> ('k \<times> 'v) list" where
  "dict_set [] k v = [(k, v)]"
| "dict_set ((k', v') # d) k v =
     (if k' = k then (k, v) # d else (k', v') # dict_set d k v)"

definition dict_get :: "('k \<times> 'v) list \<Rightarrow> 'k \<Rightarrow> 'v option" where
  "dict_get d k = map_of d k"

text \<open>\<open>print(s)\<close>: the text and a newline, on standard output.\<close>

definition print :: "ustr \<Rightarrow> proc \<Rightarrow> proc" where
  "print s p = p\<lparr>stdout := stdout p @ s @ [10]\<rparr>"

definition error_line :: "ustr \<Rightarrow> py_exception \<Rightarrow> ustr" where
  "error_line filepath e = u ''Error reading '' @ filepath @ u '': '' @ str e"

definition fallback :: "ustr \<Rightarrow> ustr" where
  "fallback filename = u ''# Error'' @ [10] @ u ''Could not load '' @ filename"

definition loop_body :: "env \<Rightarrow> ustr \<Rightarrow> ustr \<times> ustr \<Rightarrow> proc \<Rightarrow> proc" where
  "loop_body w base kf p =
     (case kf of (key, filename) \<Rightarrow>
        (let filepath = os_path_join base filename in
         (case read_text w filepath of
            Inr content \<Rightarrow> p\<lparr>embedded_pages := dict_set (embedded_pages p) key content\<rparr>
          | Inl e \<Rightarrow>
              (let p' = print (error_line filepath e) p
               in p'\<lparr>embedded_pages :=
                     dict_set (embedded_pages p') key (fallback filename)\<rparr>))))"

text \<open>\<open>for key, filename in pages_map.items(): ...\<close>\<close>

fun for_loop :: "env \<Rightarrow> ustr \<Rightarrow> (ustr \<times> ustr) list \<Rightarrow> proc \<Rightarrow> proc" where
  "for_loop w base [] p = p"
| "for_loop w base (kf # rest) p = for_loop w base rest (loop_body w base kf p)"

definition start :: proc where
  "start = \<lparr>embedded_pages = [], stdout = [], stderr = []\<rparr>"

section \<open>Serialization\<close>

text \<open>
  \<open>json.dumps(embedded_pages, indent=4)\<close> on a dict of strings. Strings go through
  \<open>encode_basestring_ascii\<close> (\<open>ensure_ascii\<close> is left at its default): the characters
  space to tilde other than the quote and the backslash stay; every other one is replaced,
  by its short escape, by \<open>\uXXXX\<close>, or by a surrogate pair of two such escapes.
\<close>

definition hexdigit :: "nat \<Rightarrow> nat" where
  "hexdigit d = (if d < 10 then 48 + d else 87 + d)"

text \<open>\<open>format(n, 'x')\<close> and \<open>'{0:04x}'.format(n)\<close>.\<close>

fun hex :: "nat \<Rightarrow> ustr" where
  "hex n = (if n < 16 then [hexdigit n] else hex (n div 16) @ [hexdigit (n mod 16)])"

declare hex.simps [simp del]

definition format_04x :: "nat \<Rightarrow> ustr" where
  "format_04x n = replicate (4 - length (hex n)) 48 @ hex n"

definition replace :: "nat \<Rightarrow> ustr" where
  "replace c =
     (if c = 92 then [92, 92]
      else if c = 34 then [92, 34]
      else if c = 8 then [92, 98]
      else if c = 12 then [92, 102]
      else if c = 10 then [92, 110]
      else if c = 13 then [92, 114]
      else if c = 9 then [92, 116]
      else if c < 65536 then [92, 117] @ format_04x c
      else
        (let n = c - 65536;
             s1 = or 55296 (and (drop_bit 10 n) 1023);
             s2 = or 56320 (and n 1023)
         in [92, 117] @ format_04x s1 @ [92, 117] @ format_04x s2))"

definition escape_ascii :: "nat \<Rightarrow> ustr" where
  "escape_ascii c = (if 32 \<le> c \<and> c \<le> 126 \<and> c \<noteq> 92 \<and> c \<noteq> 34 then [c] else replace c)"

definition encode_basestring_ascii :: "ustr \<Rightarrow> ustr" where
  "encode_basestring_ascii s = [34] @ concat (map escape_ascii s) @ [34]"

text \<open>
  The dict encoder at nesting level 0 with \<open>indent=4\<close>: \<open>{}\<close> for an empty dict;
  otherwise each item on a line of its own behind four spaces, \<open>,\<close> between items,
  \<open>: \<close> between key and value, and the closing brace at column 0.
\<close>

definition newline_indent :: ustr where
  "newline_indent = [10] @ replicate (4 * 1) 32"

definition item_separator :: ustr where
  "item_separator = [44] @ newline_indent"

definition key_separator :: ustr where
  "key_separator = [58, 32]"

fun iterencode_items :: "bool \<Rightarrow> (ustr \<times> ustr) list \<Rightarrow> ustr" where
  "iterencode_items first [] = []"
| "iterencode_items first ((key, val) # rest) =
     (if first then [] else item_separator)
     @ encode_basestring_ascii key @ key_separator @ encode_basestring_ascii val
     @ iterencode_items False rest"

definition json_dumps :: "(ustr \<times> ustr) list \<Rightarrow> ustr" where
  "json_dumps dct =
     (if dct = [] then [123, 125]
      else [123] @ newline_indent @ iterencode_items True dct
           @ ([10] @ replicate (4 * 0) 32) @ [125])"

section \<open>The script\<close>

definition js_content :: "(ustr \<times> ustr) list \<Rightarrow> ustr" where
  "js_content pages =
     u ''        const embeddedPages = '' @ json_dumps pages @ u '';'' @ [10]"

text \<open>
  A run of the script on a registry and a base directory. No statement of it leaves the
  module body early, so the interpreter ends with exit status 0.
\<close>

record outcome =
  final :: proc
  exit_status :: nat

definition script :: "ustr \<Rightarrow> (ustr \<times> ustr) list \<Rightarrow> env \<Rightarrow> outcome" where
  "script base reg w =
     (let p = for_loop w base reg start
      in \<lparr>final = print (js_content (embedded_pages p)) p, exit_status = 0\<rparr>)"

definition main :: "env \<Rightarrow> outcome" where
  "main w = script base_path pages_map w"

section \<open>What the loop computes, entry by entry\<close>

text \<open>
  Two functions for stating the properties: the value an entry of the registry ends with,
  and the text the loop prints for it. Both look at the one file of the entry only.
\<close>

definition entry_text :: "env \<Rightarrow> ustr \<Rightarrow> ustr \<Rightarrow> ustr" where
  "entry_text w base filename =
     (case read_text w (os_path_join base filename) of
        Inr content \<Rightarrow> content
      | Inl e \<Rightarrow> fallback filename)"

definition diagnostic :: "env \<Rightarrow> ustr \<Rightarrow> ustr \<Rightarrow> ustr" where
  "diagnostic w base filename =
     (case read_text w (os_path_join base filename) of
        Inr content \<Rightarrow> []
      | Inl e \<Rightarrow> error_line (os_path_join base filename) e @ [10])"

definition diagnostics :: "env \<Rightarrow> ustr \<Rightarrow> (ustr \<times> ustr) list \<Rightarrow> ustr" where
  "diagnostics w base reg = concat (map (\<lambda>kf. diagnostic w base (snd kf)) reg)"


section \<open>A small run\<close>

text \<open>
  A registry of two entries under \<open>docs/guide/\<close>, where \<open>README.md\<close> holds
  \<open>Hello\<close> and a newline and no other file exists.
\<close>

definition example_registry :: "(ustr \<times> ustr) list" where
  "example_registry = [(u ''home'', u ''README.md''), (u ''missing'', u ''nope.md'')]"

definition example_env :: env where
  "example_env =
     \<lparr>files = (\<lambda>p. if p = u ''docs/guide/README.md'' then Content (u ''Hello'' @ [10])
                   else Fails (Raised FileNotFoundError
                                 (u ''[Errno 2] No such file or directory: '' @ [39] @ p @ [39]))),
      decode_failure_text = (\<lambda>bs. u ''invalid start byte'')\<rparr>"


text \<open>The same environment with one more file, outside the registry.\<close>

definition relocated_env :: env where
  "relocated_env =
     example_env\<lparr>files := (files example_env)(u ''docs/other.md'' := Content (u ''x''))\<rparr>"

text \<open>An environment where \<open>README.md\<close> holds \<open>a\<close>, a carriage return, a line feed and \<open>b\<close>.\<close>

definition crlf_env :: env where
  "crlf_env =
     \<lparr>files = (\<lambda>p. if p = u ''docs/guide/README.md'' then Content [97, 13, 10, 98]
                   else Fails (Raised FileNotFoundError (u ''[Errno 2] No such file or directory''))),
      decode_failure_text = (\<lambda>bs. u ''invalid start byte'')\<rparr>"

section \<open>The shape of the literal, as the specification words it\<close>

text \<open>
  The structured literal of the specification: \<open>{}\<close> for no entry; otherwise an opening
  brace, one line per entry (four spaces, the key, a colon and a space, the value) with a comma
  after every line but the last, and the closing brace on a line of its own.
\<close>

fun intercalate :: "'a list \<Rightarrow> 'a list list \<Rightarrow> 'a list" where
  "intercalate sep [] = []"
| "intercalate sep [x] = x"
| "intercalate sep (x # y # r) = x @ sep @ intercalate sep (y # r)"

definition item_line :: "ustr \<times> ustr \<Rightarrow> ustr" where
  "item_line kv =
     replicate 4 32 @ encode_basestring_ascii (fst kv) @ u '': '' @ encode_basestring_ascii (snd kv)"

definition structured_literal :: "(ustr \<times> ustr) list \<Rightarrow> ustr" where
  "structured_literal pages =
     (if pages = [] then u ''{}''
      else u ''{'' @ [10] @ intercalate (u '','' @ [10]) (map item_line pages) @ [10] @ u ''}'')"

section \<open>Reading the literal back\<close>

text \<open>
  A reference reader for the literal, after RFC 8259 and Python's \<open>json.loads\<close>, for
  the texts the claims speak of: one object whose values are strings. White space is skipped
  between tokens; a string ends at the first unescaped quote; a raw control character, an
  unknown escape and a \<open>\u\<close> without four hexadecimal digits are errors; a high
  surrogate escape followed by a low one is read as the one character of the pair. \<open>None\<close>
  is a parse error, or a text outside this fragment. The reader is not part of the script.
\<close>

definition is_ws :: "nat \<Rightarrow> bool" where
  "is_ws c = (c = 32 \<or> c = 9 \<or> c = 10 \<or> c = 13)"

fun skip_ws :: "ustr \<Rightarrow> ustr" where
  "skip_ws [] = []"
| "skip_ws (c # cs) = (if is_ws c then skip_ws cs else c # cs)"

definition hexval :: "nat \<Rightarrow> nat option" where
  "hexval c =
     (if 48 \<le> c \<and> c \<le> 57 then Some (c - 48)
      else if 97 \<le> c \<and> c \<le> 102 then Some (c - 87)
      else if 65 \<le> c \<and> c \<le> 70 then Some (c - 55)
      else None)"

definition decode_uXXXX :: "nat \<Rightarrow> nat \<Rightarrow> nat \<Rightarrow> nat \<Rightarrow> nat option" where
  "decode_uXXXX a b c d =
     (case hexval a of None \<Rightarrow> None | Some x3 \<Rightarrow>
      (case hexval b of None \<Rightarrow> None | Some x2 \<Rightarrow>
       (case hexval c of None \<Rightarrow> None | Some x1 \<Rightarrow>
        (case hexval d of None \<Rightarrow> None | Some x0 \<Rightarrow>
           Some (x3 * 4096 + x2 * 256 + x1 * 16 + x0)))))"

fun hex4 :: "ustr \<Rightarrow> (nat \<times> ustr) option" where
  "hex4 (a # b # c # d # r) = map_option (\<lambda>v. (v, r)) (decode_uXXXX a b c d)"
| "hex4 _ = None"

definition unescape :: "nat \<Rightarrow> nat option" where
  "unescape e =
     (if e = 34 then Some 34
      else if e = 92 then Some 92
      else if e = 47 then Some 47
      else if e = 98 then Some 8
      else if e = 102 then Some 12
      else if e = 110 then Some 10
      else if e = 114 then Some 13
      else if e = 116 then Some 9
      else None)"

definition escape_u :: "ustr \<Rightarrow> (nat \<times> ustr) option" where
  "escape_u r =
     (case hex4 r of
        None \<Rightarrow> None
      | Some (uni, r') \<Rightarrow>
          if 55296 \<le> uni \<and> uni \<le> 56319 \<and> take 2 r' = [92, 117] then
            (case hex4 (drop 2 r') of
               None \<Rightarrow> None
             | Some (uni2, r'') \<Rightarrow>
                 if 56320 \<le> uni2 \<and> uni2 \<le> 57343
                 then Some (65536 + ((uni - 55296) * 1024 + (uni2 - 56320)), r'')
                 else Some (uni, r'))
          else Some (uni, r'))"

definition next_char :: "nat \<Rightarrow> ustr \<Rightarrow> (nat \<times> ustr) option" where
  "next_char c cs =
     (if c = 92 then
        (case cs of
           [] \<Rightarrow> None
         | e # r \<Rightarrow> if e = 117 then escape_u r else map_option (\<lambda>ch. (ch, r)) (unescape e))
      else if c < 32 then None
      else Some (c, cs))"

definition cons_char :: "nat \<Rightarrow> (ustr \<times> ustr) option \<Rightarrow> (ustr \<times> ustr) option" where
  "cons_char c r = map_option (\<lambda>sr. (c # fst sr, snd sr)) r"

lemma hex4_length: "hex4 s = Some (v, r) \<Longrightarrow> length s = length r + 4"
  by (induction s rule: hex4.induct) auto

lemma escape_u_shorter: "escape_u s = Some (ch, r) \<Longrightarrow> length r < length s"
proof -
  assume a: "escape_u s = Some (ch, r)"
  then obtain uni r' where h: "hex4 s = Some (uni, r')"
    by (auto simp: escape_u_def split: option.splits)
  then have l: "length s = length r' + 4" by (rule hex4_length)
  show ?thesis
  proof (cases "55296 \<le> uni \<and> uni \<le> 56319 \<and> take 2 r' = [92, 117]")
    case False
    with a h have "r = r'" by (auto simp: escape_u_def)
    with l show ?thesis by simp
  next
    case True
    with a h obtain uni2 r'' where h2: "hex4 (drop 2 r') = Some (uni2, r'')"
      by (auto simp: escape_u_def split: option.splits)
    then have "length (drop 2 r') = length r'' + 4" by (rule hex4_length)
    then have l2: "length r'' < length r'" by simp
    from a h h2 True have "r = r'' \<or> r = r'"
      by (auto simp: escape_u_def split: if_splits)
    with l l2 show ?thesis by auto
  qed
qed

lemma next_char_shorter: "next_char c cs = Some (ch, r) \<Longrightarrow> length r < Suc (length cs)"
  by (cases cs)
     (auto simp: next_char_def split: if_splits dest!: escape_u_shorter)

function scanstring :: "ustr \<Rightarrow> (ustr \<times> ustr) option" where
  "scanstring [] = None"
| "scanstring (c # cs) =
     (if c = 34 then Some ([], cs)
      else (case next_char c cs of
              None \<Rightarrow> None
            | Some (ch, rest) \<Rightarrow> cons_char ch (scanstring rest)))"
  by pat_completeness auto
termination
  by (relation "measure length") (auto dest!: next_char_shorter)

lemma cons_char_Some:
  "cons_char c R = Some (x, r) \<Longrightarrow> \<exists>x'. R = Some (x', r)"
  by (cases R) (auto simp: cons_char_def)

lemma scanstring_shorter: "scanstring s = Some (x, r) \<Longrightarrow> length r < length s"
proof (induction s arbitrary: x rule: scanstring.induct)
  case 1
  then show ?case by simp
next
  case (2 c cs)
  show ?case
  proof (cases "c = 34")
    case True
    with "2.prems" show ?thesis by simp
  next
    case False
    with "2.prems" obtain ch rest where n: "next_char c cs = Some (ch, rest)"
      and c: "cons_char ch (scanstring rest) = Some (x, r)"
      by (auto split: option.splits)
    from c obtain x' where "scanstring rest = Some (x', r)"
      using cons_char_Some by blast
    then have "length r < length rest"
      using "2.IH" [OF False n refl] by simp
    moreover have "length rest < Suc (length cs)" using n by (rule next_char_shorter)
    ultimately show ?thesis by simp
  qed
qed

definition expect :: "nat \<Rightarrow> ustr \<Rightarrow> ustr option" where
  "expect c s = (case skip_ws s of [] \<Rightarrow> None | x # r \<Rightarrow> if x = c then Some r else None)"

lemma skip_ws_length: "length (skip_ws s) \<le> length s"
  by (induction s) auto

lemma skip_ws_Cons_shorter: "skip_ws s = c # r \<Longrightarrow> length r < length s"
  using skip_ws_length [of s] by simp

lemma expect_shorter: "expect c s = Some r \<Longrightarrow> length r < length s"
  by (auto simp: expect_def split: list.splits if_splits dest: skip_ws_Cons_shorter)

function parse_members :: "ustr \<Rightarrow> ((ustr \<times> ustr) list \<times> ustr) option" where
  "parse_members s =
     (case scanstring s of
        None \<Rightarrow> None
      | Some (key, r1) \<Rightarrow>
     (case expect 58 r1 of
        None \<Rightarrow> None
      | Some r2 \<Rightarrow>
     (case expect 34 r2 of
        None \<Rightarrow> None
      | Some r3 \<Rightarrow>
     (case scanstring r3 of
        None \<Rightarrow> None
      | Some (val, r4) \<Rightarrow>
     (case skip_ws r4 of
        [] \<Rightarrow> None
      | c # r5 \<Rightarrow>
          if c = 125 then Some ([(key, val)], r5)
          else if c = 44 then
            (case expect 34 r5 of
               None \<Rightarrow> None
             | Some r6 \<Rightarrow>
                 map_option (\<lambda>pr. ((key, val) # fst pr, snd pr)) (parse_members r6))
          else None)))))"
  by pat_completeness auto
termination
  by (relation "measure length")
     (auto dest!: scanstring_shorter expect_shorter skip_ws_Cons_shorter)

declare parse_members.simps [simp del]

definition dict_of_pairs :: "(ustr \<times> ustr) list \<Rightarrow> (ustr \<times> ustr) list" where
  "dict_of_pairs ps = foldl (\<lambda>d kv. dict_set d (fst kv) (snd kv)) [] ps"

definition json_loads :: "ustr \<Rightarrow> (ustr \<times> ustr) list option" where
  "json_loads s =
     (case expect 123 s of
        None \<Rightarrow> None
      | Some r \<Rightarrow>
          (case skip_ws r of
             [] \<Rightarrow> None
           | c # r' \<Rightarrow>
               if c = 125 then (if skip_ws r' = [] then Some [] else None)
               else if c = 34 then
                 (case parse_members r' of
                    None \<Rightarrow> None
                  | Some (pairs, r'') \<Rightarrow>
                      if skip_ws r'' = [] then Some (dict_of_pairs pairs) else None)
               else None))"

text \<open>
  Text as the script can hold it: code points of Unicode other than surrogates (what the UTF-8
  decoder and the literals of the script produce), and a dict with each key once.
\<close>

definition scalar :: "nat \<Rightarrow> bool" where
  "scalar c = (c < 55296 \<or> (57343 < c \<and> c < 1114112))"

definition well_formed :: "(ustr \<times> ustr) list \<Rightarrow> bool" where
  "well_formed d =
     (distinct (map fst d) \<and> list_all (\<lambda>kv. list_all scalar (fst kv) \<and> list_all scalar (snd kv)) d)"



section \<open>The loop\<close>

lemma dict_set_fresh: "k \<notin> fst ` set d \<Longrightarrow> dict_set d k v = d @ [(k, v)]"
  by (induction d) auto

lemma loop_body_pages:
  "embedded_pages (loop_body w base (k, f) p) = dict_set (embedded_pages p) k (entry_text w base f)"
  by (simp add: loop_body_def entry_text_def print_def Let_def split: sum.splits)

lemma loop_body_stdout:
  "stdout (loop_body w base (k, f) p) = stdout p @ diagnostic w base f"
  by (simp add: loop_body_def diagnostic_def print_def Let_def split: sum.splits)

lemma loop_body_stderr:
  "stderr (loop_body w base kf p) = stderr p"
  by (cases kf) (simp add: loop_body_def print_def Let_def split: sum.splits)

lemma for_loop_pages:
  "distinct (map fst (embedded_pages p) @ map fst reg) \<Longrightarrow>
   embedded_pages (for_loop w base reg p) =
     embedded_pages p @ map (\<lambda>kf. (fst kf, entry_text w base (snd kf))) reg"
proof (induction reg arbitrary: p)
  case Nil
  then show ?case by simp
next
  case (Cons kf reg)
  obtain k f where kf: "kf = (k, f)" by (cases kf)
  define q where "q = loop_body w base (k, f) p"
  from Cons.prems have fresh: "k \<notin> fst ` set (embedded_pages p)"
    by (auto simp: kf)
  have step: "embedded_pages q = embedded_pages p @ [(k, entry_text w base f)]"
    by (simp add: q_def loop_body_pages dict_set_fresh [OF fresh])
  from Cons.prems have "distinct (map fst (embedded_pages q) @ map fst reg)"
    unfolding step by (auto simp: kf)
  then have "embedded_pages (for_loop w base reg q) =
      embedded_pages q @ map (\<lambda>kf. (fst kf, entry_text w base (snd kf))) reg"
    by (rule Cons.IH)
  then show ?case
    by (simp add: step kf q_def [symmetric])
qed

lemma for_loop_stdout:
  "stdout (for_loop w base reg p) = stdout p @ diagnostics w base reg"
proof (induction reg arbitrary: p)
  case Nil
  then show ?case by (simp add: diagnostics_def)
next
  case (Cons kf reg)
  then show ?case
    by (cases kf) (simp add: diagnostics_def loop_body_stdout)
qed

lemma for_loop_stderr: "stderr (for_loop w base reg p) = stderr p"
  by (induction reg arbitrary: p) (simp_all add: loop_body_stderr)

lemma script_pages:
  "distinct (map fst reg) \<Longrightarrow>
   embedded_pages (final (script base reg w)) = map (\<lambda>kf. (fst kf, entry_text w base (snd kf))) reg"
  using for_loop_pages [of start reg w base]
  by (simp add: script_def Let_def print_def start_def)

lemma script_stdout:
  "stdout (final (script base reg w)) =
     diagnostics w base reg @ js_content (embedded_pages (final (script base reg w))) @ [10]"
  by (simp add: script_def Let_def print_def for_loop_stdout start_def)

lemma script_stderr: "stderr (final (script base reg w)) = []"
  by (simp add: script_def Let_def print_def for_loop_stderr start_def)

lemma dict_get_entries:
  "distinct (map fst reg) \<Longrightarrow> (k, f) \<in> set reg \<Longrightarrow>
   dict_get (map (\<lambda>kf. (fst kf, g (snd kf))) reg) k = Some (g f)"
  by (induction reg) (auto simp: dict_get_def rev_image_eqI)

lemma for_loop_cong:
  "(\<And>k f. (k, f) \<in> set reg \<Longrightarrow> read_text w1 (os_path_join base f) = read_text w2 (os_path_join base f))
   \<Longrightarrow> for_loop w1 base reg p = for_loop w2 base reg p"
proof (induction reg arbitrary: p)
  case Nil
  then show ?case by simp
next
  case (Cons kf reg)
  obtain k f where kf: "kf = (k, f)" by (cases kf)
  have "loop_body w1 base kf p = loop_body w2 base kf p"
    using Cons.prems [of k f] by (simp add: kf loop_body_def)
  moreover have "for_loop w1 base reg (loop_body w2 base kf p) = for_loop w2 base reg (loop_body w2 base kf p)"
  proof (rule Cons.IH)
    fix k' f' assume "(k', f') \<in> set reg"
    then show "read_text w1 (os_path_join base f') = read_text w2 (os_path_join base f')"
      using Cons.prems [of k' f'] by simp
  qed
  ultimately show ?case by simp
qed

lemma pages_distinct: "distinct (map fst pages_map)"
  by (simp add: pages_map_def u_def)

section \<open>The encoder\<close>

lemma and_1023: "and (x::nat) 1023 = x mod 1024"
proof -
  have m: "(1023::nat) = mask 10" by (simp add: mask_eq_exp_minus_1)
  have "and x (mask 10) = x mod 2 ^ 10"
    by (simp only: take_bit_eq_mask [symmetric] take_bit_eq_mod)
  then show ?thesis unfolding m [symmetric] by simp
qed

lemma or_push: "y < 1024 \<Longrightarrow> or (a * 1024) (y::nat) = a * 1024 + y"
proof -
  assume y: "y < 1024"
  have "and (push_bit 10 a) (take_bit 10 y) = 0"
    by (rule bit_eqI) (auto simp: bit_simps)
  moreover have "take_bit 10 y = y" using y by (simp add: take_bit_eq_mod)
  ultimately have "push_bit 10 a + y = or (push_bit 10 a) y"
    using disjunctive_add_eq_or [of "push_bit 10 a" y] by simp
  then show ?thesis by (simp add: push_bit_eq_mult)
qed

lemma high_surrogate: "or 55296 (and (drop_bit 10 (n::nat)) 1023) = 55296 + n div 1024 mod 1024"
  using or_push [of "n div 1024 mod 1024" 54] by (simp add: and_1023 drop_bit_eq_div)

lemma low_surrogate: "or 56320 (and (n::nat) 1023) = 56320 + n mod 1024"
  using or_push [of "n mod 1024" 55] by (simp add: and_1023)

lemma replace_astral:
  "65536 \<le> c \<Longrightarrow>
   replace c = [92, 117] @ format_04x (55296 + (c - 65536) div 1024 mod 1024)
             @ [92, 117] @ format_04x (56320 + (c - 65536) mod 1024)"
  by (simp add: replace_def Let_def high_surrogate low_surrogate)

lemma hexdigit_ascii: "d < 16 \<Longrightarrow> hexdigit d < 128"
  by (simp add: hexdigit_def)

lemma hex_ascii: "c \<in> set (hex n) \<Longrightarrow> c < 128"
proof (induction n arbitrary: c rule: hex.induct)
  case (1 n)
  show ?case
  proof (cases "n < 16")
    case True
    with "1.prems" show ?thesis by (simp add: hex.simps [of n] hexdigit_ascii)
  next
    case False
    with "1.prems" have "c \<in> set (hex (n div 16)) \<or> c = hexdigit (n mod 16)"
      by (auto simp: hex.simps [of n])
    then show ?thesis
      using "1.IH" [OF False] hexdigit_ascii [of "n mod 16"] by auto
  qed
qed

lemma format_04x_ascii: "c \<in> set (format_04x n) \<Longrightarrow> c < 128"
  by (auto simp: format_04x_def dest: hex_ascii)

lemma replace_ascii: "x \<in> set (replace c) \<Longrightarrow> x < 128"
  by (auto simp: replace_def Let_def dest: format_04x_ascii split: if_splits)

lemma escape_ascii_ascii: "x \<in> set (escape_ascii c) \<Longrightarrow> x < 128"
  by (auto simp: escape_ascii_def dest: replace_ascii split: if_splits)

lemma encode_ascii: "x \<in> set (encode_basestring_ascii s) \<Longrightarrow> x < 128"
  by (auto simp: encode_basestring_ascii_def dest: escape_ascii_ascii)

lemma items_ascii: "x \<in> set (iterencode_items first d) \<Longrightarrow> x < 128"
  by (induction first d rule: iterencode_items.induct)
     (auto simp: item_separator_def newline_indent_def key_separator_def dest: encode_ascii
           split: if_splits)

lemma json_dumps_ascii: "x \<in> set (json_dumps d) \<Longrightarrow> x < 128"
  by (auto simp: json_dumps_def newline_indent_def dest: items_ascii split: if_splits)

lemma js_content_ascii: "x \<in> set (js_content d) \<Longrightarrow> x < 128"
  by (auto simp: js_content_def u_def dest: json_dumps_ascii)

lemma hex_small: "n < 16 \<Longrightarrow> hex n = [hexdigit n]"
  by (simp add: hex.simps [of n])

lemma hex_step: "16 \<le> n \<Longrightarrow> hex n = hex (n div 16) @ [hexdigit (n mod 16)]"
  by (simp add: hex.simps [of n])

lemma hex_2: "16 \<le> n \<Longrightarrow> n < 256 \<Longrightarrow> hex n = [hexdigit (n div 16), hexdigit (n mod 16)]"
  by (simp add: hex_step hex_small)

lemma hex_3:
  "256 \<le> n \<Longrightarrow> n < 4096 \<Longrightarrow>
   hex n = [hexdigit (n div 256), hexdigit (n div 16 mod 16), hexdigit (n mod 16)]"
proof -
  assume n: "256 \<le> n" "n < 4096"
  then have "16 \<le> n div 16" "n div 16 < 256" by auto
  then have "hex (n div 16) = [hexdigit (n div 16 div 16), hexdigit (n div 16 mod 16)]"
    by (rule hex_2)
  moreover have "n div 16 div 16 = n div 256" by (simp add: div_mult2_eq [symmetric])
  ultimately show ?thesis using n by (simp add: hex_step)
qed

lemma hex_4:
  "4096 \<le> n \<Longrightarrow> n < 65536 \<Longrightarrow>
   hex n = [hexdigit (n div 4096), hexdigit (n div 256 mod 16),
            hexdigit (n div 16 mod 16), hexdigit (n mod 16)]"
proof -
  assume n: "4096 \<le> n" "n < 65536"
  then have "256 \<le> n div 16" "n div 16 < 4096" by auto
  then have "hex (n div 16) =
      [hexdigit (n div 16 div 256), hexdigit (n div 16 div 16 mod 16), hexdigit (n div 16 mod 16)]"
    by (rule hex_3)
  moreover have "n div 16 div 256 = n div 4096" "n div 16 div 16 = n div 256"
    by (simp_all add: div_mult2_eq [symmetric])
  ultimately show ?thesis using n by (simp add: hex_step)
qed

lemma replicate_zeros:
  "replicate 3 (48::nat) = [48, 48, 48]" "replicate 2 (48::nat) = [48, 48]"
  "replicate 1 (48::nat) = [48]"
  by (simp_all add: numeral_3_eq_3 numeral_2_eq_2)

lemma format_04x_digits:
  "n < 65536 \<Longrightarrow>
   format_04x n = [hexdigit (n div 4096), hexdigit (n div 256 mod 16),
                   hexdigit (n div 16 mod 16), hexdigit (n mod 16)]"
proof -
  assume n: "n < 65536"
  have z: "hexdigit 0 = 48" by (simp add: hexdigit_def)
  consider "n < 16" | "16 \<le> n" "n < 256" | "256 \<le> n" "n < 4096" | "4096 \<le> n"
    by linarith
  then show ?thesis
  proof cases
    case 1
    then have "format_04x n = replicate 3 48 @ [hexdigit n]"
      by (simp add: format_04x_def hex_small)
    with 1 show ?thesis by (simp add: replicate_zeros z)
  next
    case 2
    then have "format_04x n = replicate 2 48 @ [hexdigit (n div 16), hexdigit (n mod 16)]"
      by (simp add: format_04x_def hex_2)
    with 2 show ?thesis by (simp add: replicate_zeros z)
  next
    case 3
    then have "format_04x n = replicate 1 48
        @ [hexdigit (n div 256), hexdigit (n div 16 mod 16), hexdigit (n mod 16)]"
      by (simp add: format_04x_def hex_3)
    with 3 show ?thesis by (simp add: replicate_zeros z)
  next
    case 4
    then show ?thesis using n by (simp add: format_04x_def hex_4)
  qed
qed

lemma universal_newlines_id: "13 \<notin> set cps \<Longrightarrow> universal_newlines cps = cps"
  by (induction cps rule: universal_newlines.induct) auto

lemma replicate_4: "replicate 4 x = [x, x, x, x]"
proof -
  have h: "(4::nat) = Suc (Suc (Suc (Suc 0)))" by simp
  show ?thesis unfolding h by simp
qed

lemma replicate_8: "replicate 8 x = [x, x, x, x, x, x, x, x]"
proof -
  have h: "(8::nat) = Suc (Suc (Suc (Suc (Suc (Suc (Suc (Suc 0)))))))" by simp
  show ?thesis unfolding h by simp
qed

lemma items_rest:
  "iterencode_items False rest = concat (map (\<lambda>kv. u '','' @ [10] @ item_line kv) rest)"
  by (induction rest)
     (auto simp: item_line_def item_separator_def newline_indent_def key_separator_def u_def
        replicate_4)

lemma intercalate_cons:
  "intercalate sep (x # xs) = x @ concat (map (\<lambda>y. sep @ y) xs)"
  by (induction xs arbitrary: x) auto

lemma json_dumps_shape: "json_dumps pages = structured_literal pages"
proof (cases pages)
  case Nil
  then show ?thesis by (simp add: json_dumps_def structured_literal_def u_def)
next
  case (Cons kv rest)
  obtain k v where kv: "kv = (k, v)" by (cases kv)
  have "newline_indent @ iterencode_items True pages
      = [10] @ intercalate (u '','' @ [10]) (map item_line pages)"
    unfolding Cons kv
    by (simp add: intercalate_cons items_rest comp_def)
       (simp add: item_line_def newline_indent_def key_separator_def u_def replicate_4)
  then show ?thesis
    by (simp add: json_dumps_def structured_literal_def Cons u_def newline_indent_def replicate_4)
qed

lemma diagnostics_split:
  "(k, f) \<in> set reg \<Longrightarrow>
   \<exists>before after. diagnostics w base reg = before @ diagnostic w base f @ after"
proof -
  assume "(k, f) \<in> set reg"
  then obtain xs ys where "reg = xs @ (k, f) # ys"
    by (meson split_list)
  then have "diagnostics w base reg
      = diagnostics w base xs @ diagnostic w base f @ diagnostics w base ys"
    by (simp add: diagnostics_def)
  then show ?thesis by blast
qed


section \<open>The reader inverts the encoder\<close>

lemma hexval_hexdigit: "d < 16 \<Longrightarrow> hexval (hexdigit d) = Some d"
  by (auto simp: hexval_def hexdigit_def)

lemma digits_sum:
  fixes A B C d0 d1 d2 n :: nat
  assumes "C * 16 + d0 = n" and "B * 16 + d1 = C" and "A * 16 + d2 = B"
  shows "A * 4096 + d2 * 256 + d1 * 16 + d0 = n"
  using assms by linarith

lemma digits_value:
  "(n::nat) div 4096 * 4096 + n div 256 mod 16 * 256 + n div 16 mod 16 * 16 + n mod 16 = n"
proof (rule digits_sum)
  show "n div 16 * 16 + n mod 16 = n" by simp
  have "n div 16 div 16 * 16 + n div 16 mod 16 = n div 16" by simp
  then show "n div 256 * 16 + n div 16 mod 16 = n div 16"
    by (simp add: div_mult2_eq [symmetric])
  have "n div 256 div 16 * 16 + n div 256 mod 16 = n div 256" by simp
  then show "n div 4096 * 16 + n div 256 mod 16 = n div 256"
    by (simp add: div_mult2_eq [symmetric])
qed

lemma hex4_format: "n < 65536 \<Longrightarrow> hex4 (format_04x n @ r) = Some (n, r)"
proof -
  assume n: "n < 65536"
  then have "n div 4096 < 16" by simp
  then show ?thesis
    using n by (simp add: format_04x_digits decode_uXXXX_def hexval_hexdigit digits_value)
qed

lemma next_char_plain:
  "32 \<le> c \<Longrightarrow> c \<noteq> 92 \<Longrightarrow> next_char c t = Some (c, t)"
  by (simp add: next_char_def)

lemma escape_u_bmp:
  "n < 65536 \<Longrightarrow> \<not> (55296 \<le> n \<and> n \<le> 56319) \<Longrightarrow> escape_u (format_04x n @ t) = Some (n, t)"
  by (auto simp: escape_u_def hex4_format)

lemma escape_u_pair:
  assumes "55296 \<le> hi" "hi \<le> 56319" "56320 \<le> lo" "lo \<le> 57343"
  shows "escape_u (format_04x hi @ [92, 117] @ format_04x lo @ t)
           = Some (65536 + ((hi - 55296) * 1024 + (lo - 56320)), t)"
proof -
  have "hex4 (format_04x hi @ [92, 117] @ format_04x lo @ t)
          = Some (hi, [92, 117] @ format_04x lo @ t)"
    using assms by (intro hex4_format) simp
  moreover have "hex4 (format_04x lo @ t) = Some (lo, t)"
    using assms by (intro hex4_format) simp
  ultimately show ?thesis
    using assms by (simp add: escape_u_def)
qed

lemma next_char_escape:
  assumes "scalar c"
  shows "\<exists>x xs. escape_ascii c = x # xs \<and> x \<noteq> 34 \<and> (\<forall>t. next_char x (xs @ t) = Some (c, t))"
proof -
  consider (plain) "32 \<le> c" "c \<le> 126" "c \<noteq> 92" "c \<noteq> 34"
    | (short) "c = 92 \<or> c = 34 \<or> c = 8 \<or> c = 12 \<or> c = 10 \<or> c = 13 \<or> c = 9"
    | (bmp) "c < 32 \<or> 126 < c" "c < 65536" "c \<noteq> 8" "c \<noteq> 12" "c \<noteq> 10" "c \<noteq> 13" "c \<noteq> 9"
    | (astral) "65536 \<le> c"
    by linarith
  then show ?thesis
  proof cases
    case plain
    then show ?thesis by (simp add: escape_ascii_def next_char_plain)
  next
    case short
    then show ?thesis
      by (auto simp: escape_ascii_def replace_def next_char_def unescape_def)
  next
    case bmp
    then have e: "escape_ascii c = 92 # 117 # format_04x c"
      by (auto simp: escape_ascii_def replace_def)
    have "\<not> (55296 \<le> c \<and> c \<le> 56319)" using assms by (auto simp: scalar_def)
    then have "\<forall>t. next_char 92 ((117 # format_04x c) @ t) = Some (c, t)"
      using bmp(2) by (simp add: next_char_def escape_u_bmp)
    with e show ?thesis by (intro exI [of _ 92] exI [of _ "117 # format_04x c"]) simp
  next
    case astral
    define n where "n = c - 65536"
    define hi where "hi = 55296 + n div 1024 mod 1024"
    define lo where "lo = 56320 + n mod 1024"
    have c: "c < 1114112" using assms astral by (simp add: scalar_def)
    then have small: "n div 1024 < 1024" by (simp add: n_def)
    then have hi: "55296 \<le> hi" "hi \<le> 56319" by (simp_all add: hi_def)
    have "n mod 1024 < 1024" by simp
    then have lo: "56320 \<le> lo" "lo \<le> 57343" unfolding lo_def by linarith+
    have e: "escape_ascii c = 92 # 117 # (format_04x hi @ [92, 117] @ format_04x lo)"
      using astral by (simp add: escape_ascii_def replace_astral hi_def lo_def n_def)
    have "n div 1024 * 1024 + n mod 1024 = n" by simp
    then have "65536 + ((hi - 55296) * 1024 + (lo - 56320)) = c"
      using small astral by (simp add: hi_def lo_def n_def)
    then have "\<forall>t. next_char 92 ((117 # (format_04x hi @ [92, 117] @ format_04x lo)) @ t)
        = Some (c, t)"
      using escape_u_pair [OF hi lo] by (simp add: next_char_def)
    with e show ?thesis
      by (intro exI [of _ 92] exI [of _ "117 # (format_04x hi @ [92, 117] @ format_04x lo)"]) simp
  qed
qed

lemma scanstring_escape:
  "scalar c \<Longrightarrow> scanstring (escape_ascii c @ t) = cons_char c (scanstring t)"
proof -
  assume "scalar c"
  then obtain x xs where "escape_ascii c = x # xs" "x \<noteq> 34"
    "\<forall>t. next_char x (xs @ t) = Some (c, t)"
    using next_char_escape by blast
  then show ?thesis by simp
qed

lemma scanstring_encoded:
  "list_all scalar s \<Longrightarrow> scanstring (concat (map escape_ascii s) @ 34 # t) = Some (s, t)"
  by (induction s) (simp_all add: scanstring_escape cons_char_def)

lemma scanstring_basestring:
  "list_all scalar s \<Longrightarrow> scanstring (tl (encode_basestring_ascii s) @ t) = Some (s, t)"
  by (simp add: encode_basestring_ascii_def scanstring_encoded)

lemma expect_here: "\<not> is_ws c \<Longrightarrow> expect c (c # r) = Some r"
  by (simp add: expect_def)

lemma expect_skip: "is_ws x \<Longrightarrow> expect c (x # r) = expect c r"
  by (simp add: expect_def)

lemma parse_members_encoded:
  "list_all scalar k \<Longrightarrow> list_all scalar v \<Longrightarrow>
   list_all (\<lambda>kv. list_all scalar (fst kv) \<and> list_all scalar (snd kv)) rest \<Longrightarrow>
   parse_members (concat (map escape_ascii k) @ 34 # 58 # 32 # encode_basestring_ascii v
                  @ iterencode_items False rest @ 10 # 125 # t)
     = Some ((k, v) # rest, t)"
proof (induction rest arbitrary: k v)
  case Nil
  have v: "scanstring (concat (map escape_ascii v) @ 34 # 10 # 125 # t) = Some (v, 10 # 125 # t)"
    using Nil.prems(2) by (rule scanstring_encoded)
  show ?case
    apply (subst parse_members.simps)
    apply (simp add: scanstring_encoded [OF Nil.prems(1)])
    apply (simp add: expect_here expect_skip is_ws_def encode_basestring_ascii_def v)
    done
next
  case (Cons kv rest)
  obtain k' v' where kv: "kv = (k', v')" by (cases kv)
  from Cons.prems have k': "list_all scalar k'" and v': "list_all scalar v'"
    and rest: "list_all (\<lambda>kv. list_all scalar (fst kv) \<and> list_all scalar (snd kv)) rest"
    by (simp_all add: kv)
  have IH: "parse_members (concat (map escape_ascii k') @ 34 # 58 # 32 # encode_basestring_ascii v'
                  @ iterencode_items False rest @ 10 # 125 # t)
     = Some ((k', v') # rest, t)"
    using k' v' rest by (rule Cons.IH)
  let ?tail = "44 # 10 # 32 # 32 # 32 # 32 # 34 # concat (map escape_ascii k') @ 34 # 58 # 32
      # encode_basestring_ascii v' @ iterencode_items False rest @ 10 # 125 # t"
  have v: "scanstring (concat (map escape_ascii v) @ 34 # ?tail) = Some (v, ?tail)"
    using Cons.prems(2) by (rule scanstring_encoded)
  have shape: "encode_basestring_ascii v @ iterencode_items False (kv # rest) @ 10 # 125 # t
      = 34 # concat (map escape_ascii v) @ 34 # ?tail"
    by (simp add: kv item_separator_def newline_indent_def key_separator_def replicate_4
          encode_basestring_ascii_def)
  show ?case
    apply (subst parse_members.simps)
    apply (simp only: scanstring_encoded [OF Cons.prems(1)] shape)
    apply (simp add: expect_here expect_skip is_ws_def v IH kv)
    done
qed

lemma dict_of_pairs_fold:
  "distinct (map fst acc @ map fst ps) \<Longrightarrow>
   foldl (\<lambda>d kv. dict_set d (fst kv) (snd kv)) acc ps = acc @ ps"
proof (induction ps arbitrary: acc)
  case Nil
  then show ?case by simp
next
  case (Cons kv ps)
  from Cons.prems have "fst kv \<notin> fst ` set acc" by auto
  then have "dict_set acc (fst kv) (snd kv) = acc @ [kv]"
    by (simp add: dict_set_fresh)
  moreover from Cons.prems have "distinct (map fst (acc @ [kv]) @ map fst ps)" by auto
  ultimately show ?case using Cons.IH [of "acc @ [kv]"] by simp
qed

lemma dict_of_pairs_distinct: "distinct (map fst ps) \<Longrightarrow> dict_of_pairs ps = ps"
  using dict_of_pairs_fold [of "[]" ps] by (simp add: dict_of_pairs_def)

lemma round_trip_well_formed:
  assumes "well_formed d"
  shows "json_loads (json_dumps d) = Some d"
proof (cases d)
  case Nil
  then show ?thesis
    by (simp add: json_loads_def json_dumps_def expect_here is_ws_def)
next
  case (Cons kv rest)
  obtain k v where kv: "kv = (k, v)" by (cases kv)
  from assms have k: "list_all scalar k" and v: "list_all scalar v"
    and rest: "list_all (\<lambda>kv. list_all scalar (fst kv) \<and> list_all scalar (snd kv)) rest"
    and dist: "distinct (map fst d)"
    by (simp_all add: well_formed_def Cons kv)
  have p: "parse_members (concat (map escape_ascii k) @ 34 # 58 # 32 # encode_basestring_ascii v
                  @ iterencode_items False rest @ 10 # 125 # [])
     = Some ((k, v) # rest, [])"
    using k v rest by (rule parse_members_encoded)
  have shape: "json_dumps d = 123 # 10 # 32 # 32 # 32 # 32 # 34 # concat (map escape_ascii k)
      @ 34 # 58 # 32 # encode_basestring_ascii v @ iterencode_items False rest @ 10 # 125 # []"
    by (simp add: json_dumps_def Cons kv newline_indent_def replicate_4 key_separator_def
          encode_basestring_ascii_def)
  show ?thesis
    unfolding shape
    using dist
    by (simp add: json_loads_def expect_here is_ws_def p dict_of_pairs_distinct Cons kv)
qed

lemma scalar_ascii: "c < 128 \<Longrightarrow> scalar c"
  by (simp add: scalar_def)

lemma utf8_decode_scalar: "utf8_decode bs = Some cps \<Longrightarrow> list_all scalar cps"
proof (induction "length bs" arbitrary: bs cps rule: less_induct)
  case less
  have IH: "\<And>r ds. length r < length bs \<Longrightarrow> utf8_decode r = Some ds \<Longrightarrow> list_all scalar ds"
    using less.hyps by blast
  show ?case
  proof (cases bs)
    case Nil
    with less.prems show ?thesis by simp
  next
    case (Cons b r0)
    consider (one) "b < 128" | (two) "194 \<le> b" "b < 224" | (three) "224 \<le> b" "b < 240"
      | (four) "240 \<le> b" "b < 245" | (bad) "128 \<le> b" "b < 194" | (high) "245 \<le> b"
      by linarith
    then show ?thesis
    proof cases
      case one
      with less.prems Cons obtain ds where "utf8_decode r0 = Some ds" "cps = b # ds"
        by auto
      with IH [of r0 ds] Cons one show ?thesis by (simp add: scalar_ascii)
    next
      case two
      with less.prems Cons obtain c1 r ds where r0: "r0 = c1 # r" and c: "cont c1"
        and d: "utf8_decode r = Some ds" and cps: "cps = ((b - 192) * 64 + (c1 - 128)) # ds"
        by (auto split: list.splits if_splits)
      have "(b - 192) * 64 \<le> 31 * 64" using two by (intro mult_le_mono1) simp
      moreover have "c1 - 128 < 64" using c by (auto simp: cont_def)
      ultimately have "(b - 192) * 64 + (c1 - 128) < 55296" by linarith
      with IH [of r ds] d cps Cons r0 show ?thesis by (simp add: scalar_def)
    next
      case three
      with less.prems Cons obtain c1 c2 r ds where r0: "r0 = c1 # c2 # r"
        and c: "cont c1" "cont c2"
        and ns: "\<not> (55296 \<le> (b - 224) * 4096 + (c1 - 128) * 64 + (c2 - 128)
                    \<and> (b - 224) * 4096 + (c1 - 128) * 64 + (c2 - 128) < 57344)"
        and d: "utf8_decode r = Some ds"
        and cps: "cps = ((b - 224) * 4096 + (c1 - 128) * 64 + (c2 - 128)) # ds"
        by (auto simp: Let_def split: list.splits if_splits)
      have "(b - 224) * 4096 \<le> 15 * 4096" using three by (intro mult_le_mono1) simp
      moreover have "(c1 - 128) * 64 \<le> 63 * 64"
        using c by (intro mult_le_mono1) (auto simp: cont_def)
      moreover have "c2 - 128 < 64" using c by (auto simp: cont_def)
      ultimately have "(b - 224) * 4096 + (c1 - 128) * 64 + (c2 - 128) < 1114112"
        by linarith
      with ns have "scalar ((b - 224) * 4096 + (c1 - 128) * 64 + (c2 - 128))"
        unfolding scalar_def by linarith
      with IH [of r ds] d cps Cons r0 show ?thesis by simp
    next
      case four
      with less.prems Cons obtain c1 c2 c3 r ds where r0: "r0 = c1 # c2 # c3 # r"
        and rng: "65536 \<le> (b - 240) * 262144 + (c1 - 128) * 4096 + (c2 - 128) * 64 + (c3 - 128)"
          "(b - 240) * 262144 + (c1 - 128) * 4096 + (c2 - 128) * 64 + (c3 - 128) < 1114112"
        and d: "utf8_decode r = Some ds"
        and cps: "cps = ((b - 240) * 262144 + (c1 - 128) * 4096 + (c2 - 128) * 64 + (c3 - 128)) # ds"
        by (auto simp: Let_def split: list.splits if_splits)
      from rng have "scalar ((b - 240) * 262144 + (c1 - 128) * 4096 + (c2 - 128) * 64 + (c3 - 128))"
        unfolding scalar_def by linarith
      with IH [of r ds] d cps Cons r0 show ?thesis by simp
    next
      case bad
      with less.prems Cons show ?thesis by simp
    next
      case high
      with less.prems Cons show ?thesis by simp
    qed
  qed
qed

lemma universal_newlines_scalar:
  "list_all scalar cps \<Longrightarrow> list_all scalar (universal_newlines cps)"
  by (induction cps rule: universal_newlines.induct) (auto simp: scalar_def)

lemma fallback_scalar: "list_all scalar f \<Longrightarrow> list_all scalar (fallback f)"
  by (simp add: fallback_def u_def scalar_def)

lemma entry_text_scalar: "list_all scalar f \<Longrightarrow> list_all scalar (entry_text w base f)"
  by (auto simp: entry_text_def read_text_def fallback_scalar
           intro: universal_newlines_scalar utf8_decode_scalar
           split: sum.splits file_node.splits option.splits)

lemma script_well_formed:
  assumes "distinct (map fst reg)"
    and "list_all (\<lambda>kf. list_all scalar (fst kf) \<and> list_all scalar (snd kf)) reg"
  shows "well_formed (embedded_pages (final (script base reg w)))"
proof -
  have "list_all (\<lambda>kv. list_all scalar (fst kv) \<and> list_all scalar (snd kv))
          (map (\<lambda>kf. (fst kf, entry_text w base (snd kf))) reg)"
    using assms(2) by (induction reg) (auto simp: entry_text_scalar)
  then show ?thesis
    using assms(1) by (simp add: well_formed_def script_pages comp_def)
qed

lemma pages_map_scalar:
  "list_all (\<lambda>kf. list_all scalar (fst kf) \<and> list_all scalar (snd kf)) pages_map"
  by (simp add: pages_map_def u_def scalar_def)


section \<open>Claims\<close>

text \<open>
  Claim C4. Whatever the environment answers (so however many reads fail), the dict the run
  ends with has exactly the keys of the registry, once each and as many, in the order of the
  registry; the dict is serialized in that order.
\<close>

theorem result_map_keys:
  assumes "distinct (map fst reg)"
  shows "map fst (embedded_pages (final (script base reg w))) = map fst reg
       \<and> length (embedded_pages (final (script base reg w))) = length reg
       \<and> fst ` set (embedded_pages (final (script base reg w))) = fst ` set reg
       \<and> distinct (map fst (embedded_pages (final (script base reg w))))
       \<and> json_dumps (embedded_pages (final (script base reg w)))
           = structured_literal (map (\<lambda>kf. (fst kf, entry_text w base (snd kf))) reg)"
proof -
  have pages: "embedded_pages (final (script base reg w)) =
      map (\<lambda>kf. (fst kf, entry_text w base (snd kf))) reg"
    using assms by (rule script_pages)
  have keys: "map fst (embedded_pages (final (script base reg w))) = map fst reg"
    by (simp add: pages comp_def)
  have "fst ` set (embedded_pages (final (script base reg w))) = fst ` set reg"
    using keys by (metis set_map)
  moreover have "length (embedded_pages (final (script base reg w))) = length reg"
    by (simp add: pages)
  moreover have "json_dumps (embedded_pages (final (script base reg w)))
           = structured_literal (map (\<lambda>kf. (fst kf, entry_text w base (snd kf))) reg)"
    by (simp only: pages json_dumps_shape)
  ultimately show ?thesis using keys assms by simp
qed

theorem result_map_keys_witness:
  "distinct (map fst example_registry)
   \<and> map fst (embedded_pages (final (script base_path example_registry example_env)))
       = [u ''home'', u ''missing'']"
  using result_map_keys [of example_registry base_path example_env]
  by (simp add: example_registry_def u_def)

text \<open>
  Claim C5. When reading the file of a registry entry raises (the file is missing or cannot be
  read or decoded), the entry of its identifier is the text \<open># Error\<close>, a newline,
  \<open>Could not load \<close> and the filename as the registry has it, not the joined path.
\<close>

theorem missing_file_entry:
  assumes "distinct (map fst reg)" and "(key, filename) \<in> set reg"
    and "read_text w (os_path_join base filename) = Inl e"
  shows "dict_get (embedded_pages (final (script base reg w))) key
           = Some (u ''# Error'' @ [10] @ u ''Could not load '' @ filename)"
proof -
  have "dict_get (embedded_pages (final (script base reg w))) key = Some (entry_text w base filename)"
    using assms(1,2) by (simp add: script_pages dict_get_entries)
  then show ?thesis
    using assms(3) by (simp add: entry_text_def fallback_def)
qed

theorem missing_file_entry_witness:
  "distinct (map fst example_registry)
   \<and> (u ''missing'', u ''nope.md'') \<in> set example_registry
   \<and> read_text example_env (os_path_join base_path (u ''nope.md''))
       = Inl (Raised FileNotFoundError
               (u ''[Errno 2] No such file or directory: '' @ [39] @ u ''docs/guide/nope.md'' @ [39]))
   \<and> dict_get (embedded_pages (final (script base_path example_registry example_env))) (u ''missing'')
       = Some (u ''# Error'' @ [10] @ u ''Could not load nope.md'')"
  using missing_file_entry [of example_registry "u ''missing''" "u ''nope.md''" example_env base_path
      "Raised FileNotFoundError
         (u ''[Errno 2] No such file or directory: '' @ [39] @ u ''docs/guide/nope.md'' @ [39])"]
  by (simp add: example_registry_def example_env_def u_def base_path_def os_path_join_def read_text_def)

text \<open>
  Claim C6. A read that raises for one entry stops nothing: every entry of the registry gets its
  own value (the fallback text where its read raised, the text of its file otherwise), the run
  ends with exit status 0, and standard output carries the serialized dict of all entries.
\<close>

theorem read_failures_recovered:
  assumes "distinct (map fst reg)"
  shows "exit_status (script base reg w) = 0
       \<and> (\<forall>(k, f) \<in> set reg.
            (\<forall>e. read_text w (os_path_join base f) = Inl e \<longrightarrow>
                 dict_get (embedded_pages (final (script base reg w))) k = Some (fallback f))
          \<and> (\<forall>t. read_text w (os_path_join base f) = Inr t \<longrightarrow>
                 dict_get (embedded_pages (final (script base reg w))) k = Some t))
       \<and> stdout (final (script base reg w))
           = diagnostics w base reg
             @ js_content (map (\<lambda>kf. (fst kf, entry_text w base (snd kf))) reg) @ [10]"
proof -
  have status: "exit_status (script base reg w) = 0"
    by (simp add: script_def Let_def)
  have entries: "dict_get (embedded_pages (final (script base reg w))) k = Some (entry_text w base f)"
    if "(k, f) \<in> set reg" for k f
    using assms that by (simp add: script_pages dict_get_entries)
  have out: "stdout (final (script base reg w))
           = diagnostics w base reg
             @ js_content (map (\<lambda>kf. (fst kf, entry_text w base (snd kf))) reg) @ [10]"
    using script_stdout [of base reg w] by (simp add: script_pages [OF assms])
  from entries have "\<forall>(k, f) \<in> set reg.
            (\<forall>e. read_text w (os_path_join base f) = Inl e \<longrightarrow>
                 dict_get (embedded_pages (final (script base reg w))) k = Some (fallback f))
          \<and> (\<forall>t. read_text w (os_path_join base f) = Inr t \<longrightarrow>
                 dict_get (embedded_pages (final (script base reg w))) k = Some t)"
    by (auto simp: entry_text_def)
  with status out show ?thesis by blast
qed

theorem read_failures_recovered_witness:
  "distinct (map fst example_registry)
   \<and> exit_status (script base_path example_registry example_env) = 0
   \<and> dict_get (embedded_pages (final (script base_path example_registry example_env))) (u ''home'')
       = Some (u ''Hello'' @ [10])
   \<and> dict_get (embedded_pages (final (script base_path example_registry example_env))) (u ''missing'')
       = Some (fallback (u ''nope.md''))"
  using read_failures_recovered [of example_registry base_path example_env]
  by (simp add: example_registry_def example_env_def u_def base_path_def os_path_join_def
      read_text_def)

text \<open>
  Claim C8. The run is a function of what the reads of the registry's files give: two
  environments that answer these reads alike lead to the same outcome, standard output included.
\<close>

theorem deterministic_output:
  assumes "\<forall>(k, f) \<in> set reg.
             read_text w1 (os_path_join base f) = read_text w2 (os_path_join base f)"
  shows "script base reg w1 = script base reg w2"
proof -
  have "for_loop w1 base reg start = for_loop w2 base reg start"
    by (rule for_loop_cong) (use assms in auto)
  then show ?thesis by (simp add: script_def)
qed

theorem deterministic_output_witness:
  "read_text example_env (os_path_join base_path (u ''README.md''))
     = read_text relocated_env (os_path_join base_path (u ''README.md''))
   \<and> read_text example_env (os_path_join base_path (u ''nope.md''))
     = read_text relocated_env (os_path_join base_path (u ''nope.md''))
   \<and> files example_env \<noteq> files relocated_env
   \<and> stdout (final (script base_path example_registry example_env))
       = stdout (final (script base_path example_registry relocated_env))"
proof -
  have h: "\<forall>(k, f) \<in> set example_registry.
      read_text example_env (os_path_join base_path f)
        = read_text relocated_env (os_path_join base_path f)"
    by (simp add: example_registry_def example_env_def relocated_env_def u_def base_path_def
        os_path_join_def read_text_def)
  have "files example_env (u ''docs/other.md'') \<noteq> files relocated_env (u ''docs/other.md'')"
    by (simp add: example_env_def relocated_env_def u_def)
  then have d: "files example_env \<noteq> files relocated_env" by metis
  from h have "read_text example_env (os_path_join base_path (u ''README.md''))
     = read_text relocated_env (os_path_join base_path (u ''README.md''))"
    and "read_text example_env (os_path_join base_path (u ''nope.md''))
     = read_text relocated_env (os_path_join base_path (u ''nope.md''))"
    by (simp_all add: example_registry_def)
  with d deterministic_output [OF h] show ?thesis by simp
qed

text \<open>
  Claim C9. Whatever the class of the exception that opening or reading raises, and also when
  the bytes do not decode, the identifier is mapped to the fallback text; the loop is a total
  function, and each identifier ends mapped to the fallback text or to the text of its file.
\<close>

theorem every_exception_falls_back:
  assumes "distinct (map fst reg)" and "(k, f) \<in> set reg"
  shows "(\<forall>c msg. files w (os_path_join base f) = Fails (Raised c msg) \<longrightarrow>
            dict_get (embedded_pages (for_loop w base reg start)) k = Some (fallback f))
       \<and> (\<forall>bs. files w (os_path_join base f) = Content bs \<and> utf8_decode bs = None \<longrightarrow>
            dict_get (embedded_pages (for_loop w base reg start)) k = Some (fallback f))
       \<and> (dict_get (embedded_pages (for_loop w base reg start)) k = Some (fallback f)
          \<or> (\<exists>bs cps. files w (os_path_join base f) = Content bs \<and> utf8_decode bs = Some cps
                \<and> dict_get (embedded_pages (for_loop w base reg start)) k
                    = Some (universal_newlines cps)))"
proof -
  have "embedded_pages (for_loop w base reg start)
          = map (\<lambda>kf. (fst kf, entry_text w base (snd kf))) reg"
    using for_loop_pages [of start reg w base] assms(1) by (simp add: start_def)
  then have entry: "dict_get (embedded_pages (for_loop w base reg start)) k
      = Some (entry_text w base f)"
    using assms by (simp add: dict_get_entries)
  show ?thesis
    unfolding entry
    by (cases "files w (os_path_join base f)")
       (auto simp: entry_text_def read_text_def split: option.splits)
qed

theorem every_exception_falls_back_witness:
  "distinct (map fst example_registry) \<and> (u ''missing'', u ''nope.md'') \<in> set example_registry
   \<and> (\<exists>c msg. files example_env (os_path_join base_path (u ''nope.md'')) = Fails (Raised c msg))
   \<and> dict_get (embedded_pages (for_loop example_env base_path example_registry start)) (u ''missing'')
       = Some (fallback (u ''nope.md''))"
  using every_exception_falls_back [of example_registry "u ''missing''" "u ''nope.md''" example_env base_path]
  by (simp add: example_registry_def example_env_def u_def base_path_def os_path_join_def)

text \<open>
  Claim C3, as stated, fails: \<open>print\<close> adds a newline of its own after the one the
  string already ends with, so standard output ends with two.
\<close>

theorem trailing_newline_counterexample:
  "stdout (final (script base_path [(u ''home'', u ''README.md'')] example_env))
     = u ''        const embeddedPages = {'' @ [10]
       @ u ''    '' @ [34] @ u ''home'' @ [34] @ u '': '' @ [34] @ u ''Hello'' @ [92, 110, 34, 10]
       @ u ''};'' @ [10, 10]
   \<and> stdout (final (script base_path [(u ''home'', u ''README.md'')] example_env))
     \<noteq> js_content (embedded_pages (final (script base_path [(u ''home'', u ''README.md'')] example_env)))"
  by (simp add: script_def Let_def print_def start_def loop_body_def read_text_def example_env_def
      base_path_def os_path_join_def u_def js_content_def json_dumps_def newline_indent_def
      key_separator_def encode_basestring_ascii_def escape_ascii_def replace_def replicate_4)

text \<open>
  Claim C3, amended. The printed string is eight spaces, \<open>const embeddedPages = \<close>, the
  structured literal with four spaces before each entry, a semicolon and a newline; standard
  output is the lines of the failed reads, that string, and one more newline from \<open>print\<close>.
\<close>

theorem output_shape:
  "js_content pages
     = replicate 8 32 @ u ''const embeddedPages = '' @ structured_literal pages @ u '';'' @ [10]
   \<and> stdout (final (script base reg w))
     = diagnostics w base reg
       @ js_content (embedded_pages (final (script base reg w))) @ [10]"
proof -
  have "replicate 8 (32::nat) = u ''        ''"
    by (simp add: u_def replicate_8)
  then have "js_content pages
     = replicate 8 32 @ u ''const embeddedPages = '' @ structured_literal pages @ u '';'' @ [10]"
    by (simp add: js_content_def json_dumps_shape u_def)
  then show ?thesis using script_stdout [of base reg w] by simp
qed

text \<open>
  Claim C10. What the last \<open>print\<close> writes holds no character above 127, whatever the
  dict: a character from 127 to U+FFFF is written as a backslash, \<open>u\<close> and four hexadecimal
  digits, a character above as the two such escapes of its surrogate pair.
\<close>

theorem serialized_output_ascii:
  "(\<forall>c \<in> set (js_content pages @ [10]). c < 128)
   \<and> (\<forall>c. 126 < c \<and> c < 65536 \<longrightarrow>
          escape_ascii c = [92, 117] @ format_04x c \<and> length (format_04x c) = 4)
   \<and> (\<forall>c. 65536 \<le> c \<and> c < 1114112 \<longrightarrow>
          escape_ascii c
            = [92, 117] @ format_04x (55296 + (c - 65536) div 1024)
              @ [92, 117] @ format_04x (56320 + (c - 65536) mod 1024)
          \<and> length (format_04x (55296 + (c - 65536) div 1024)) = 4
          \<and> length (format_04x (56320 + (c - 65536) mod 1024)) = 4)"
proof -
  have a: "\<forall>c \<in> set (js_content pages @ [10]). c < 128"
    by (auto dest: js_content_ascii)
  have b: "escape_ascii c = [92, 117] @ format_04x c \<and> length (format_04x c) = 4"
    if "126 < c" "c < 65536" for c
    using that by (simp add: escape_ascii_def replace_def format_04x_digits)
  have c: "escape_ascii c
            = [92, 117] @ format_04x (55296 + (c - 65536) div 1024)
              @ [92, 117] @ format_04x (56320 + (c - 65536) mod 1024)
          \<and> length (format_04x (55296 + (c - 65536) div 1024)) = 4
          \<and> length (format_04x (56320 + (c - 65536) mod 1024)) = 4"
    if "65536 \<le> c" "c < 1114112" for c
  proof -
    from that have small: "(c - 65536) div 1024 < 1024" by simp
    then have m: "(c - 65536) div 1024 mod 1024 = (c - 65536) div 1024" by simp
    have "55296 + (c - 65536) div 1024 < 65536" using small by simp
    moreover have "56320 + (c - 65536) mod 1024 < 65536"
    proof -
      have "(c - 65536) mod 1024 < 1024" by simp
      then show ?thesis by linarith
    qed
    ultimately show ?thesis
      using that by (simp add: escape_ascii_def replace_astral m format_04x_digits)
  qed
  from a b c show ?thesis by blast
qed

theorem serialized_output_ascii_witness:
  "list_all (\<lambda>c. c < 128) (js_content [(u ''a'', [233, 128512])] @ [10])
   \<and> escape_ascii 233 = [92, 117] @ format_04x 233
   \<and> escape_ascii 128512 = [92, 117] @ format_04x 55357 @ [92, 117] @ format_04x 56832"
  using serialized_output_ascii [of "[(u ''a'', [233, 128512])]"]
  by (simp add: list_all_iff)

text \<open>
  Claim C2, as stated, fails: for the missing file of the small run the line goes to standard
  output, ahead of the serialized dict, and nothing is written to standard error.
\<close>

theorem diagnostic_stream_counterexample:
  "read_text example_env (os_path_join base_path (u ''nope.md''))
     = Inl (Raised FileNotFoundError
              (u ''[Errno 2] No such file or directory: '' @ [39] @ u ''docs/guide/nope.md'' @ [39]))
   \<and> stderr (final (script base_path example_registry example_env)) = []
   \<and> stdout (final (script base_path example_registry example_env))
       = u ''Error reading docs/guide/nope.md: [Errno 2] No such file or directory: ''
         @ [39] @ u ''docs/guide/nope.md'' @ [39, 10]
         @ js_content (embedded_pages (final (script base_path example_registry example_env)))
         @ [10]"
proof -
  have "diagnostics example_env base_path example_registry
      = u ''Error reading docs/guide/nope.md: [Errno 2] No such file or directory: ''
         @ [39] @ u ''docs/guide/nope.md'' @ [39, 10]"
    by (simp add: diagnostics_def diagnostic_def read_text_def example_env_def
        example_registry_def base_path_def os_path_join_def u_def error_line_def)
  moreover have "read_text example_env (os_path_join base_path (u ''nope.md''))
     = Inl (Raised FileNotFoundError
              (u ''[Errno 2] No such file or directory: '' @ [39] @ u ''docs/guide/nope.md'' @ [39]))"
    by (simp add: read_text_def example_env_def base_path_def os_path_join_def u_def)
  ultimately show ?thesis
    using script_stdout [of base_path example_registry example_env]
    by (simp add: script_stderr)
qed

text \<open>
  Claim C2, amended. For every registry entry whose read raises, the line \<open>Error reading\<close>,
  the joined path, a colon and the text of the exception is written to standard output, before
  the serialized dict; standard error stays empty and the run ends with exit status 0.
\<close>

theorem diagnostic_on_stdout:
  assumes "(k, f) \<in> set reg" and "read_text w (os_path_join base f) = Inl e"
  shows "(\<exists>before after.
            stdout (final (script base reg w))
              = before @ u ''Error reading '' @ os_path_join base f @ u '': '' @ str e @ [10]
                @ after @ js_content (embedded_pages (final (script base reg w))) @ [10])
       \<and> stderr (final (script base reg w)) = []
       \<and> exit_status (script base reg w) = 0"
proof -
  from assms(1) obtain before after
    where "diagnostics w base reg = before @ diagnostic w base f @ after"
    using diagnostics_split by blast
  moreover have "diagnostic w base f
      = u ''Error reading '' @ os_path_join base f @ u '': '' @ str e @ [10]"
    using assms(2) by (simp add: diagnostic_def error_line_def)
  ultimately have "stdout (final (script base reg w))
      = before @ u ''Error reading '' @ os_path_join base f @ u '': '' @ str e @ [10]
        @ after @ js_content (embedded_pages (final (script base reg w))) @ [10]"
    using script_stdout [of base reg w] by simp
  then have "\<exists>before after.
            stdout (final (script base reg w))
              = before @ u ''Error reading '' @ os_path_join base f @ u '': '' @ str e @ [10]
                @ after @ js_content (embedded_pages (final (script base reg w))) @ [10]"
    by blast
  then show ?thesis
    by (simp add: script_stderr) (simp add: script_def Let_def)
qed

theorem diagnostic_on_stdout_witness:
  "(u ''missing'', u ''nope.md'') \<in> set example_registry
   \<and> read_text example_env (os_path_join base_path (u ''nope.md''))
       = Inl (Raised FileNotFoundError
                (u ''[Errno 2] No such file or directory: '' @ [39] @ u ''docs/guide/nope.md'' @ [39]))
   \<and> stderr (final (script base_path example_registry example_env)) = []
   \<and> exit_status (script base_path example_registry example_env) = 0"
  using diagnostic_on_stdout [of "u ''missing''" "u ''nope.md''" example_registry example_env base_path
      "Raised FileNotFoundError
         (u ''[Errno 2] No such file or directory: '' @ [39] @ u ''docs/guide/nope.md'' @ [39])"]
  by (simp add: example_registry_def example_env_def u_def base_path_def os_path_join_def
      read_text_def)

text \<open>
  Claim C1, as stated, fails: a file with a carriage return before its line feed is valid
  UTF-8, and its entry is not its decoded content, since text mode translates line endings.
\<close>

theorem crlf_counterexample:
  "files crlf_env (os_path_join base_path (u ''README.md'')) = Content [97, 13, 10, 98]
   \<and> utf8_decode [97, 13, 10, 98] = Some [97, 13, 10, 98]
   \<and> dict_get (embedded_pages (final (main crlf_env))) (u ''home'') = Some [97, 10, 98]
   \<and> dict_get (embedded_pages (final (main crlf_env))) (u ''home'') \<noteq> Some [97, 13, 10, 98]"
proof -
  have "(u ''home'', u ''README.md'') \<in> set pages_map"
    by (simp add: pages_map_def)
  then have "dict_get (embedded_pages (final (main crlf_env))) (u ''home'')
      = Some (entry_text crlf_env base_path (u ''README.md''))"
    using pages_distinct by (simp add: main_def script_pages dict_get_entries)
  moreover have "files crlf_env (os_path_join base_path (u ''README.md'')) = Content [97, 13, 10, 98]"
    by (simp add: crlf_env_def base_path_def os_path_join_def u_def)
  moreover from this have "entry_text crlf_env base_path (u ''README.md'') = [97, 10, 98]"
    by (simp add: entry_text_def read_text_def)
  ultimately show ?thesis by simp
qed

text \<open>
  Claim C1, amended. For a registry entry whose file can be read and decodes as UTF-8, the
  entry is the decoded text with every \<open>\r\n\<close> and every other \<open>\r\<close> turned into
  \<open>\n\<close>, and nothing else changed: it is the decoded text itself when that holds no
  carriage return.
\<close>

theorem text_entry:
  assumes "distinct (map fst reg)" and "(key, filename) \<in> set reg"
    and "files w (os_path_join base filename) = Content bs"
    and "utf8_decode bs = Some cps"
  shows "dict_get (embedded_pages (final (script base reg w))) key = Some (universal_newlines cps)
       \<and> (13 \<notin> set cps \<longrightarrow>
            dict_get (embedded_pages (final (script base reg w))) key = Some cps)"
proof -
  have "dict_get (embedded_pages (final (script base reg w))) key = Some (entry_text w base filename)"
    using assms(1,2) by (simp add: script_pages dict_get_entries)
  moreover have "entry_text w base filename = universal_newlines cps"
    using assms(3,4) by (simp add: entry_text_def read_text_def)
  ultimately show ?thesis by (simp add: universal_newlines_id)
qed

theorem text_entry_witness:
  "distinct (map fst example_registry) \<and> (u ''home'', u ''README.md'') \<in> set example_registry
   \<and> files example_env (os_path_join base_path (u ''README.md'')) = Content (u ''Hello'' @ [10])
   \<and> utf8_decode (u ''Hello'' @ [10]) = Some (u ''Hello'' @ [10])
   \<and> 13 \<notin> set (u ''Hello'' @ [10])
   \<and> dict_get (embedded_pages (final (script base_path example_registry example_env))) (u ''home'')
       = Some (u ''Hello'' @ [10])"
  using text_entry [of example_registry "u ''home''" "u ''README.md''" example_env base_path
      "u ''Hello'' @ [10]" "u ''Hello'' @ [10]"]
  by (simp add: example_registry_def example_env_def u_def base_path_def os_path_join_def)

text \<open>
  Claim C7. Reading back the literal gives the dict that was serialized, keys and values
  alike: for the dict of every run of the script, whatever the files hold, and for any dict
  of text with each key once, quotes, backslashes, newlines, control characters and
  characters beyond ASCII included.
\<close>

theorem serialization_round_trip:
  "json_loads (json_dumps (embedded_pages (final (main w)))) = Some (embedded_pages (final (main w)))
   \<and> (well_formed d \<longrightarrow> json_loads (json_dumps d) = Some d)"
proof -
  have "well_formed (embedded_pages (final (main w)))"
    unfolding main_def using pages_distinct pages_map_scalar by (rule script_well_formed)
  then show ?thesis by (simp add: round_trip_well_formed)
qed

theorem serialization_round_trip_witness:
  "well_formed [(u ''home'', [34, 92, 10, 233, 128512])]
   \<and> json_loads (json_dumps [(u ''home'', [34, 92, 10, 233, 128512])])
       = Some [(u ''home'', [34, 92, 10, 233, 128512])]"
  using serialization_round_trip [of example_env "[(u ''home'', [34, 92, 10, 233, 128512])]"]
  by (simp add: well_formed_def scalar_def u_def)

end
